theory Spec2Isabelle
  imports
    Main
    "HOL-Library.Word"
    "HOL-Library.List_Lexorder"
    "HOL-Library.Product_Lexorder"
    "HOL-Library.Multiset"
begin

section \<open>The tree index of the MVCC store (server/storage/mvcc/index.go)\<close>

text \<open>
  The model is sequential: one call runs at a time, so the readers/writer lock and the
  logger of \<open>treeIndex\<close> are left out. A Go byte slice that may be \<open>nil\<close> is a
  \<open>bytes option\<close> (\<open>None\<close> is \<open>nil\<close>, \<open>Some []\<close> the zero-length non-nil slice); a
  key is only ever compared and copied, so it is a plain byte list.
\<close>

subsection \<open>Data\<close>

type_synonym bytes = "8 word list"

text \<open>
  Modelled from the spec: the declarations of \<open>revision\<close>, \<open>generation\<close> and
  \<open>keyIndex\<close> (revision.go and key_index.go are not among the sources). Section 3 of the
  specification gives the fields; index.go reads \<open>rev.main\<close>, \<open>rev.sub\<close>, \<open>ki.key\<close> and
  \<open>item.valueSize\<close>. The integers are only compared and copied at this layer.
\<close>

record revision =
  main :: int
  sub :: int

record generation =
  ver :: int
  created :: revision
  revs :: "revision list"

record keyIndex =
  key :: bytes
  modified :: revision
  valueSize :: int
  generations :: "generation list"

datatype error = ErrRevisionNotFound | ErrRevisionOutOfOrder | ErrUnavailable

datatype panic = Panic

text \<open>\<open>len\<close> of a possibly-nil slice, and its contents.\<close>

definition slice :: "bytes option \<Rightarrow> bytes" where
  "slice b = (case b of None \<Rightarrow> [] | Some bs \<Rightarrow> bs)"

text \<open>\<open>&keyIndex{key: key}\<close>: a probe item, every other field zero.\<close>

definition probe :: "bytes \<Rightarrow> keyIndex" where
  "probe k = \<lparr>key = k, modified = \<lparr>main = 0, sub = 0\<rparr>, valueSize = 0, generations = []\<rparr>"

subsection \<open>The ordered container (github.com/google/btree)\<close>

text \<open>
  Modelled from the spec: \<open>keyIndex.Less\<close> (key_index.go), the order of the items:
  unsigned lexicographic comparison of the key bytes.
\<close>

definition Less :: "keyIndex \<Rightarrow> keyIndex \<Rightarrow> bool" where
  "Less a b \<longleftrightarrow> key a < key b"

text \<open>
  The B-tree is an external library. It is represented by the list of its items in
  ascending order; \<open>tree_inv\<close> is the representation invariant (strictly ascending keys,
  hence no key twice). The items are pointers in Go: \<open>update_item\<close> is the effect, seen
  through the tree, of a method mutating the \<open>keyIndex\<close> it was given.
\<close>

type_synonym btree = "keyIndex list"

definition tree_inv :: "btree \<Rightarrow> bool" where
  "tree_inv t \<longleftrightarrow> sorted_wrt Less t"

definition same_key :: "keyIndex \<Rightarrow> keyIndex \<Rightarrow> bool" where
  "same_key a b \<longleftrightarrow> \<not> Less a b \<and> \<not> Less b a"

definition btree_Get :: "btree \<Rightarrow> keyIndex \<Rightarrow> keyIndex option" where
  "btree_Get t k = find (same_key k) t"


definition btree_Len :: "btree \<Rightarrow> int" where
  "btree_Len t = int (length t)"


definition update_item :: "keyIndex \<Rightarrow> keyIndex \<Rightarrow> btree \<Rightarrow> btree" where
  "update_item old new t = map (\<lambda>x. if same_key old x then new else x) t"

text \<open>
  An iterator calls \<open>f\<close> on each item in ascending order until \<open>f\<close> returns false. The
  variables the Go closure captures and assigns are the state \<open>s\<close> it passes on.
\<close>

fun ascend :: "keyIndex list \<Rightarrow> (keyIndex \<Rightarrow> 's \<Rightarrow> bool \<times> 's) \<Rightarrow> 's \<Rightarrow> 's" where
  "ascend [] f s = s"
| "ascend (item # rest) f s =
     (case f item s of
        (True, s') \<Rightarrow> ascend rest f s'
      | (False, s') \<Rightarrow> s')"

definition btree_Ascend :: "btree \<Rightarrow> (keyIndex \<Rightarrow> 's \<Rightarrow> bool \<times> 's) \<Rightarrow> 's \<Rightarrow> 's" where
  "btree_Ascend t f s = ascend t f s"

definition btree_AscendGreaterOrEqual ::
  "btree \<Rightarrow> keyIndex \<Rightarrow> (keyIndex \<Rightarrow> 's \<Rightarrow> bool \<times> 's) \<Rightarrow> 's \<Rightarrow> 's" where
  "btree_AscendGreaterOrEqual t pivot f s = ascend (dropWhile (\<lambda>x. Less x pivot) t) f s"

subsection \<open>treeIndex\<close>

text \<open>
  The methods of \<open>keyIndex\<close> that index.go calls (\<open>get\<close>, \<open>since\<close>, \<open>tombstone\<close>,
  \<open>compact\<close>, \<open>keep\<close>, \<open>isEmpty\<close>, \<open>equal\<close>) live in key_index.go, which is not among the
  sources. Each \<open>treeIndex\<close> method takes the ones it calls as its first arguments, with
  the result types index.go uses them at.
\<close>

type_synonym get_fn = "keyIndex \<Rightarrow> int \<Rightarrow> error + revision \<times> revision \<times> int"

definition ti_keyIndex :: "btree \<Rightarrow> keyIndex \<Rightarrow> keyIndex option" where
  "ti_keyIndex ti keyi =
     (case btree_Get ti keyi of Some item \<Rightarrow> Some item | None \<Rightarrow> None)"

definition Get :: "get_fn \<Rightarrow> btree \<Rightarrow> bytes \<Rightarrow> int \<Rightarrow> error + revision \<times> revision \<times> int" where
  "Get kget ti k atRev =
     (case ti_keyIndex ti (probe k) of
        None \<Rightarrow> Inl ErrRevisionNotFound
      | Some keyi \<Rightarrow> kget keyi atRev)"

definition visit ::
  "btree \<Rightarrow> bytes \<Rightarrow> bytes option \<Rightarrow> (keyIndex \<Rightarrow> 's \<Rightarrow> bool \<times> 's) \<Rightarrow> 's \<Rightarrow> 's" where
  "visit ti k endb f s =
     (let keyi = probe k; endi = probe (slice endb) in
      btree_AscendGreaterOrEqual ti keyi
        (\<lambda>item s.
           if length (key endi) > 0 \<and> \<not> Less item endi then (False, s)
           else (case f item s of (False, s') \<Rightarrow> (False, s') | (True, s') \<Rightarrow> (True, s')))
        s)"

definition Range_ti ::
  "get_fn \<Rightarrow> btree \<Rightarrow> bytes \<Rightarrow> bytes option \<Rightarrow> int \<Rightarrow> bytes list \<times> revision list" where
  "Range_ti kget ti k endb atRev =
     (case endb of
        None \<Rightarrow>
          (case Get kget ti k atRev of
             Inl err \<Rightarrow> ([], [])
           | Inr (r, _, _) \<Rightarrow> ([k], [r]))
      | Some _ \<Rightarrow>
          visit ti k endb
            (\<lambda>ki (keys, revs).
               case kget ki atRev of
                 Inr (r, _, _) \<Rightarrow> (True, (keys @ [key ki], revs @ [r]))
               | Inl err \<Rightarrow> (True, (keys, revs)))
            ([], []))"

definition Revisions ::
  "get_fn \<Rightarrow> btree \<Rightarrow> bytes \<Rightarrow> bytes option \<Rightarrow> int \<Rightarrow> int \<Rightarrow> revision list \<times> int" where
  "Revisions kget ti k endb atRev limit =
     (case endb of
        None \<Rightarrow>
          (case Get kget ti k atRev of
             Inl err \<Rightarrow> ([], 0)
           | Inr (r, _, _) \<Rightarrow> ([r], 1))
      | Some _ \<Rightarrow>
          visit ti k endb
            (\<lambda>ki (revs, total).
               case kget ki atRev of
                 Inr (r, _, _) \<Rightarrow>
                   (True,
                    (if limit \<le> 0 \<or> int (length revs) < limit then revs @ [r] else revs,
                     total + 1))
               | Inl err \<Rightarrow> (True, (revs, total)))
            ([], 0))"

definition CountRevisions :: "get_fn \<Rightarrow> btree \<Rightarrow> bytes \<Rightarrow> bytes option \<Rightarrow> int \<Rightarrow> int" where
  "CountRevisions kget ti k endb atRev =
     (case endb of
        None \<Rightarrow>
          (case Get kget ti k atRev of
             Inl err \<Rightarrow> 0
           | Inr _ \<Rightarrow> 1)
      | Some _ \<Rightarrow>
          visit ti k endb
            (\<lambda>ki total.
               case kget ki atRev of
                 Inr _ \<Rightarrow> (True, total + 1)
               | Inl err \<Rightarrow> (True, total))
            0)"

text \<open>
  In \<open>RangeValueSize\<close> the callback tests \<open>ki != nil\<close>; the tree stores no nil item, so
  the callback always appends and continues.
\<close>

definition RangeValueSize :: "btree \<Rightarrow> bytes \<Rightarrow> bytes option \<Rightarrow> bytes list \<times> int list" where
  "RangeValueSize ti k endb =
     (case ti_keyIndex ti (probe k) of
        None \<Rightarrow> ([], [])
      | Some item \<Rightarrow>
          (case endb of
             None \<Rightarrow> ([k], [valueSize item])
           | Some _ \<Rightarrow>
               visit ti k endb
                 (\<lambda>ki (keys, valueSizes). (True, (keys @ [key ki], valueSizes @ [valueSize ki])))
                 ([], [])))"

definition GetValueSize :: "btree \<Rightarrow> bytes \<Rightarrow> int \<times> bool" where
  "GetValueSize ti k =
     (case ti_keyIndex ti (probe k) of
        None \<Rightarrow> (- 1, False)
      | Some item \<Rightarrow> (valueSize item, True))"

text \<open>\<open>Tombstone\<close> returns the error (\<open>None\<close> is Go's nil error) and the tree it leaves.\<close>

definition Tombstone ::
  "(keyIndex \<Rightarrow> int \<Rightarrow> int \<Rightarrow> error option \<times> keyIndex) \<Rightarrow> btree \<Rightarrow> bytes \<Rightarrow> revision
     \<Rightarrow> error option \<times> btree" where
  "Tombstone ktombstone ti k r =
     (case btree_Get ti (probe k) of
        None \<Rightarrow> (Some ErrRevisionNotFound, ti)
      | Some ki \<Rightarrow>
          (case ktombstone ki (main r) (sub r) of
             (err, ki') \<Rightarrow> (err, update_item ki ki' ti)))"

text \<open>
  Modelled from the spec: the order \<open>sort.Sort(revisions(revs))\<close> sorts by (revision.go is
  not among the sources): lexicographic on \<open>(main, sub)\<close>. Two revisions with the same
  pair are the same value, so the sorted result does not depend on the algorithm.
\<close>

definition rev_key :: "revision \<Rightarrow> int \<times> int" where
  "rev_key r = (main r, sub r)"

definition RangeSince ::
  "(keyIndex \<Rightarrow> int \<Rightarrow> revision list) \<Rightarrow> btree \<Rightarrow> bytes \<Rightarrow> bytes option \<Rightarrow> int \<Rightarrow> revision list" where
  "RangeSince ksince ti k endb r =
     (let keyi = probe k in
      case endb of
        None \<Rightarrow>
          (case btree_Get ti keyi of
             None \<Rightarrow> []
           | Some item \<Rightarrow> ksince item r)
      | Some _ \<Rightarrow>
          (let endi = probe (slice endb) in
           sort_key rev_key
             (btree_AscendGreaterOrEqual ti keyi
                (\<lambda>item revs.
                   if length (key endi) > 0 \<and> \<not> Less item endi then (False, revs)
                   else (True, revs @ ksince item r))
                [])))"






text \<open>
  In \<open>Equal\<close>, \<open>b.tree.Get(item).(*keyIndex)\<close> asserts the type of what \<open>Get\<close> returns;
  on the nil interface value of a missing key the assertion panics.
\<close>

definition equal_step ::
  "(keyIndex \<Rightarrow> keyIndex \<Rightarrow> bool) \<Rightarrow> btree \<Rightarrow> keyIndex \<Rightarrow> panic + bool \<Rightarrow> bool \<times> (panic + bool)" where
  "equal_step kequal b item s =
     (case btree_Get b item of
        None \<Rightarrow> (False, Inl Panic)
      | Some bki \<Rightarrow> if \<not> kequal item bki then (False, Inr False) else (True, s))"

definition Equal :: "(keyIndex \<Rightarrow> keyIndex \<Rightarrow> bool) \<Rightarrow> btree \<Rightarrow> btree \<Rightarrow> panic + bool" where
  "Equal kequal ti b =
     (if btree_Len ti \<noteq> btree_Len b then Inr False
      else btree_Ascend ti (equal_step kequal b) (Inr True))"

subsection \<open>keyIndex, from the specification\<close>

text \<open>
  Modelled from the spec: the methods of \<open>keyIndex\<close> (key_index.go is not among the
  sources), after section 4.2 of the specification. The properties below hold for every
  function in their place; these definitions are the instances they are evaluated at.
\<close>

definition emptyGen :: generation where
  "emptyGen = \<lparr>ver = 0, created = \<lparr>main = 0, sub = 0\<rparr>, revs = []\<rparr>"

text \<open>
  Modelled from the spec: \<open>generation.isEmpty\<close> and \<open>keyIndex.isEmpty\<close>: a generation
  with no revisions is empty; a KeyIndex is empty iff it has exactly one generation and it
  is empty.
\<close>

definition g_isEmpty :: "generation \<Rightarrow> bool" where
  "g_isEmpty g \<longleftrightarrow> revs g = []"

definition ki_isEmpty :: "keyIndex \<Rightarrow> bool" where
  "ki_isEmpty ki \<longleftrightarrow> length (generations ki) = 1 \<and> g_isEmpty (hd (generations ki))"

text \<open>
  Modelled from the spec: \<open>keyIndex.put\<close>: fails if \<open>(main, sub) <= modified\<close>; appends a
  fresh generation if there is none; starts the last generation if it is empty; appends the
  revision, increments \<open>ver\<close>, sets \<open>modified\<close> and \<open>valueSize\<close>.
\<close>

definition ki_put :: "keyIndex \<Rightarrow> int \<Rightarrow> int \<Rightarrow> int \<Rightarrow> error option \<times> keyIndex" where
  "ki_put ki m s vsize =
     (let r = \<lparr>main = m, sub = s\<rparr> in
      if rev_key r \<le> rev_key (modified ki) then (Some ErrRevisionOutOfOrder, ki)
      else
        (let gens = (if generations ki = [] then [emptyGen] else generations ki);
             g = last gens;
             g1 = (if g_isEmpty g then g\<lparr>created := r, ver := 0\<rparr> else g);
             g2 = g1\<lparr>revs := revs g1 @ [r], ver := ver g1 + 1\<rparr>
         in (None, ki\<lparr>generations := butlast gens @ [g2], modified := r, valueSize := vsize\<rparr>)))"

text \<open>
  Modelled from the spec: \<open>keyIndex.tombstone\<close>: fails with Unavailable on an empty
  KeyIndex and with RevisionOutOfOrder as \<open>put\<close> does; appends the revision as a write
  does, then a fresh empty generation. The specification leaves \<open>valueSize\<close> undefined
  after a tombstone; it is kept here.
\<close>

definition ki_tombstone :: "keyIndex \<Rightarrow> int \<Rightarrow> int \<Rightarrow> error option \<times> keyIndex" where
  "ki_tombstone ki m s =
     (if ki_isEmpty ki then (Some ErrUnavailable, ki)
      else
        (case ki_put ki m s (valueSize ki) of
           (Some e, ki') \<Rightarrow> (Some e, ki')
         | (None, ki') \<Rightarrow> (None, ki'\<lparr>generations := generations ki' @ [emptyGen]\<rparr>)))"

text \<open>
  Modelled from the spec: the revision \<open>keyIndex.get\<close> returns, as a position (generation,
  index in it): the youngest generation whose first revision has \<open>main <= atRev\<close> and, in
  it, the latest revision with \<open>main <= atRev\<close>; with \<open>atRev == 0\<close>, the last revision
  of the live generation. There is none when \<open>atRev\<close> is before the key's creation, and
  none when \<open>atRev\<close> falls inside a tombstoned gap: the generation found is closed (another
  generation follows it) and \<open>atRev\<close> is past the \<open>main\<close> of its tombstone. At the
  \<open>main\<close> of the tombstone itself the tombstone is returned.
\<close>

definition last_index :: "('a \<Rightarrow> bool) \<Rightarrow> 'a list \<Rightarrow> nat option" where
  "last_index P xs =
     (case filter (\<lambda>i. P (xs ! i)) [0..<length xs] of
        [] \<Rightarrow> None
      | i # js \<Rightarrow> Some (last (i # js)))"

definition pivot :: "keyIndex \<Rightarrow> int \<Rightarrow> (nat \<times> nat) option" where
  "pivot ki atRev =
     (let gens = generations ki in
      if atRev = 0 then
        (if gens \<noteq> [] \<and> \<not> g_isEmpty (last gens)
         then Some (length gens - 1, length (revs (last gens)) - 1)
         else None)
      else
        (case last_index (\<lambda>g. \<not> g_isEmpty g \<and> main (hd (revs g)) \<le> atRev) gens of
           None \<Rightarrow> None
         | Some gi \<Rightarrow>
             if Suc gi < length gens \<and> main (last (revs (gens ! gi))) < atRev then None
             else
               (case last_index (\<lambda>r. main r \<le> atRev) (revs (gens ! gi)) of
                  None \<Rightarrow> None
                | Some ri \<Rightarrow> Some (gi, ri))))"

definition ki_get :: get_fn where
  "ki_get ki atRev =
     (case pivot ki atRev of
        None \<Rightarrow> Inl ErrRevisionNotFound
      | Some (gi, ri) \<Rightarrow>
          (let g = generations ki ! gi in Inr (revs g ! ri, created g, int ri + 1)))"

text \<open>
  Modelled from the spec: \<open>keyIndex.since\<close>: all revisions across all generations with
  \<open>main >= rev\<close>, in their order in the history.
\<close>

definition ki_since :: "keyIndex \<Rightarrow> int \<Rightarrow> revision list" where
  "ki_since ki r = filter (\<lambda>x. r \<le> main x) (concat (map revs (generations ki)))"





text \<open>
  Modelled from the spec: \<open>keyIndex.equal\<close>: equal keys, equal \<open>modified\<close>, and
  generations equal in \<open>created\<close>, \<open>ver\<close> and \<open>revs\<close>.
\<close>

definition ki_equal :: "keyIndex \<Rightarrow> keyIndex \<Rightarrow> bool" where
  "ki_equal a b \<longleftrightarrow> key a = key b \<and> modified a = modified b \<and> generations a = generations b"

subsection \<open>The intervals of a range call\<close>

text \<open>
  \<open>between k e\<close> is the half-open interval \<open>[k, e)\<close> of the byte order; \<open>visited k e\<close>
  is what a range call with the non-nil end \<open>e\<close> scans: the same interval when \<open>e\<close> has
  bytes, and every key from \<open>k\<close> on when \<open>e\<close> has none.
\<close>

definition between :: "bytes \<Rightarrow> bytes \<Rightarrow> keyIndex \<Rightarrow> bool" where
  "between k e ki \<longleftrightarrow> k \<le> key ki \<and> key ki < e"

definition visited :: "bytes \<Rightarrow> bytes \<Rightarrow> keyIndex \<Rightarrow> bool" where
  "visited k e ki \<longleftrightarrow> k \<le> key ki \<and> (e = [] \<or> key ki < e)"

definition found :: "get_fn \<Rightarrow> int \<Rightarrow> keyIndex \<Rightarrow> bool" where
  "found kget atRev ki \<longleftrightarrow> \<not> isl (kget ki atRev)"

definition absent :: "bytes \<Rightarrow> btree \<Rightarrow> bool" where
  "absent k t \<longleftrightarrow> k \<notin> key ` set t"

text \<open>
  \<open>all_below e t\<close>: \<open>e\<close> is above every key of the tree. \<open>all_present t b\<close>: every key
  of \<open>t\<close> is also a key of \<open>b\<close>. \<open>none_empty isEmpty t\<close>: the tree holds no
  \<open>keyIndex\<close> for which \<open>isEmpty\<close> holds.
\<close>

definition all_below :: "bytes \<Rightarrow> btree \<Rightarrow> bool" where
  "all_below e t \<longleftrightarrow> (\<forall>ki\<in>set t. key ki < e)"

definition all_present :: "btree \<Rightarrow> btree \<Rightarrow> bool" where
  "all_present t b \<longleftrightarrow> (\<forall>ki\<in>set t. \<not> absent (key ki) b)"


text \<open>
  \<open>equal_prefix equal pre b\<close>: every \<open>keyIndex\<close> of \<open>pre\<close> has its key in \<open>b\<close>, with
  an equal \<open>keyIndex\<close> there.
\<close>

definition equal_prefix :: "(keyIndex \<Rightarrow> keyIndex \<Rightarrow> bool) \<Rightarrow> keyIndex list \<Rightarrow> btree \<Rightarrow> bool" where
  "equal_prefix kequal pre b \<longleftrightarrow>
     (\<forall>p\<in>set pre. case btree_Get b p of None \<Rightarrow> False | Some bp \<Rightarrow> kequal p bp)"

text \<open>The \<open>since(rev)\<close> outputs of a list of keys, one after the other.\<close>

definition since_all :: "(keyIndex \<Rightarrow> int \<Rightarrow> revision list) \<Rightarrow> int \<Rightarrow> keyIndex list \<Rightarrow> revision list" where
  "since_all ksince r kis = concat (map (\<lambda>ki. ksince ki r) kis)"

subsection \<open>What the compaction walk computes\<close>



subsection \<open>Sample states\<close>

definition rv :: "int \<Rightarrow> int \<Rightarrow> revision" where
  "rv m s = \<lparr>main = m, sub = s\<rparr>"

text \<open>A key written at the revisions \<open>rs\<close> and never deleted: one open generation.\<close>

definition live_key :: "bytes \<Rightarrow> revision list \<Rightarrow> int \<Rightarrow> keyIndex" where
  "live_key k rs vsize =
     \<lparr>key = k, modified = last rs, valueSize = vsize,
      generations = [\<lparr>ver = int (length rs), created = hd rs, revs = rs\<rparr>]\<rparr>"


text \<open>Keys "a", "b", "c" put at (2,0), (3,0), (4,0) (scenario S2 of the specification).\<close>

definition tree_abc :: btree where
  "tree_abc = [live_key [97] [rv 2 0] 10, live_key [98] [rv 3 0] 20, live_key [99] [rv 4 0] 30]"

text \<open>"a" put at (2,0) and (4,0), "b" at (3,0), "c" at (5,0) (scenario S4).\<close>

definition tree_s4 :: btree where
  "tree_s4 = [live_key [97] [rv 2 0, rv 4 0] 10, live_key [98] [rv 3 0] 20, live_key [99] [rv 5 0] 30]"

text \<open>Only "b", put at (3,0).\<close>

definition tree_b :: btree where
  "tree_b = [live_key [98] [rv 3 0] 20]"





text \<open>As \<open>tree_abc\<close>, with "d" in the place of "c".\<close>

definition tree_abd :: btree where
  "tree_abd = [live_key [97] [rv 2 0] 10, live_key [98] [rv 3 0] 20, live_key [100] [rv 4 0] 30]"

text \<open>As \<open>tree_abd\<close>, with "a" put at (7,0) instead of (2,0).\<close>

definition tree_abd_later :: btree where
  "tree_abd_later = [live_key [97] [rv 7 0] 10, live_key [98] [rv 3 0] 20, live_key [100] [rv 4 0] 30]"

section \<open>Properties\<close>

subsection \<open>Lookup in the container\<close>

lemma same_key_iff: "same_key a b \<longleftrightarrow> key a = key b"
  by (auto simp: same_key_def Less_def)

lemma key_probe [simp]: "key (probe k) = k"
  by (simp add: probe_def)

lemma btree_Get_absent: "absent k t \<Longrightarrow> btree_Get t (probe k) = None"
  by (auto simp: btree_Get_def find_None_iff same_key_iff absent_def)

lemma btree_Get_None_iff: "btree_Get t p = None \<longleftrightarrow> absent (key p) t"
  by (auto simp: btree_Get_def find_None_iff same_key_iff absent_def)

lemma btree_Get_present:
  "tree_inv t \<Longrightarrow> ki \<in> set t \<Longrightarrow> key p = key ki \<Longrightarrow> btree_Get t p = Some ki"
proof (induction t)
  case Nil
  then show ?case by simp
next
  case (Cons x xs)
  show ?case
  proof (cases "ki = x")
    case True
    with Cons.prems show ?thesis by (simp add: btree_Get_def same_key_iff)
  next
    case False
    with Cons.prems have in_xs: "ki \<in> set xs" by simp
    with Cons.prems have "key x < key ki" by (auto simp: tree_inv_def Less_def)
    then have "\<not> same_key p x" using Cons.prems by (simp add: same_key_iff)
    moreover have "btree_Get xs p = Some ki"
      using Cons.IH Cons.prems in_xs by (simp add: tree_inv_def)
    ultimately show ?thesis by (simp add: btree_Get_def)
  qed
qed

lemma ti_keyIndex_eq: "ti_keyIndex t p = btree_Get t p"
  by (simp add: ti_keyIndex_def split: option.split)

subsection \<open>Single-key calls\<close>


text \<open>
  C1. With \<open>end == nil\<close>, \<open>Range(key, end, atRev)\<close> returns the key and the revision
  \<open>Get(key, atRev)\<close> returns when \<open>Get\<close> succeeds, and two empty lists when \<open>Get\<close> fails
  (with \<open>ErrRevisionNotFound\<close> or any other error), whatever \<open>keyIndex.get\<close> does.
\<close>

theorem Range_nil_end_is_Get:
  "(Get kget ti k atRev = Inr (r, cr, v) \<longrightarrow> Range_ti kget ti k None atRev = ([k], [r])) \<and>
   (Get kget ti k atRev = Inl e \<longrightarrow> Range_ti kget ti k None atRev = ([], []))"
  by (simp add: Range_ti_def)

theorem Range_nil_end_is_Get_witness:
  "Get ki_get tree_abc [97] 4 = Inr (rv 2 0, rv 2 0, 1) \<and>
   Range_ti ki_get tree_abc [97] None 4 = ([[97]], [rv 2 0]) \<and>
   Get ki_get tree_abc [122] 4 = Inl ErrRevisionNotFound \<and>
   Range_ti ki_get tree_abc [122] None 4 = ([], [])"
proof -
  have ok: "Get ki_get tree_abc [97] 4 = Inr (rv 2 0, rv 2 0, 1)"
    by code_simp
  have fails: "Get ki_get tree_abc [122] 4 = Inl ErrRevisionNotFound"
    by code_simp
  show ?thesis
    using ok fails
      Range_nil_end_is_Get [of ki_get tree_abc "[97]" 4 "rv 2 0" "rv 2 0" 1]
      Range_nil_end_is_Get [of ki_get tree_abc "[122]" 4 _ _ _ ErrRevisionNotFound]
    by simp
qed

text \<open>
  C2. When the key is absent, \<open>Tombstone(key, rev)\<close> fails with \<open>ErrRevisionNotFound\<close>
  and leaves the tree as it was, whatever \<open>keyIndex.tombstone\<close> does; on the empty tree,
  \<open>Tombstone("x", (1,0))\<close> returns \<open>ErrRevisionNotFound\<close>.
\<close>

theorem Tombstone_absent_key:
  "(absent k ti \<longrightarrow> Tombstone ktombstone ti k r = (Some ErrRevisionNotFound, ti)) \<and>
   Tombstone ktombstone [] [120] \<lparr>main = 1, sub = 0\<rparr> = (Some ErrRevisionNotFound, [])"
  by (simp add: Tombstone_def btree_Get_absent) (simp add: btree_Get_def)

theorem Tombstone_absent_key_witness:
  "absent [120] tree_abc \<and>
   Tombstone ki_tombstone tree_abc [120] (rv 1 0) = (Some ErrRevisionNotFound, tree_abc)"
proof -
  have h: "absent [120] tree_abc"
    by (simp add: absent_def tree_abc_def live_key_def)
  show ?thesis
    using h Tombstone_absent_key [of "[120]" tree_abc ki_tombstone "rv 1 0"] by simp
qed

text \<open>
  C9. When the start key itself is absent, \<open>RangeValueSize(key, end)\<close> returns two empty
  lists, for every \<open>end\<close>: also for a non-nil \<open>end\<close> with other keys in \<open>[key, end)\<close>.
  The range is scanned only when the exact start key is in the tree.
\<close>

theorem RangeValueSize_absent_start:
  "absent k ti \<Longrightarrow> RangeValueSize ti k endb = ([], [])"
  by (simp add: RangeValueSize_def ti_keyIndex_eq btree_Get_absent)

theorem RangeValueSize_absent_start_witness:
  "absent [97] tree_b \<and>
   live_key [98] [rv 3 0] 20 \<in> set tree_b \<and> between [97] [99] (live_key [98] [rv 3 0] 20) \<and>
   RangeValueSize tree_b [97] (Some [99]) = ([], [])"
proof -
  have h: "absent [97] tree_b"
    by (simp add: absent_def tree_b_def live_key_def)
  have other: "live_key [98] [rv 3 0] 20 \<in> set tree_b \<and> between [97] [99] (live_key [98] [rv 3 0] 20)"
    by (simp add: tree_b_def between_def live_key_def)
  show ?thesis
    using h other RangeValueSize_absent_start [of "[97]" tree_b "Some [99]"] by simp
qed

text \<open>
  C10. \<open>GetValueSize(key)\<close> returns \<open>(-1, false)\<close> when the key is absent and
  \<open>(s, true)\<close>, with \<open>s\<close> the \<open>valueSize\<close> field of the key's \<open>keyIndex\<close>, when it is
  present. It takes no revision: the result is a function of the tree and the key alone.
\<close>

theorem GetValueSize_result:
  "(absent k ti \<longrightarrow> GetValueSize ti k = (- 1, False)) \<and>
   (tree_inv ti \<and> ki \<in> set ti \<longrightarrow> GetValueSize ti (key ki) = (valueSize ki, True))"
proof (intro conjI impI)
  assume "absent k ti"
  then show "GetValueSize ti k = (- 1, False)"
    by (simp add: GetValueSize_def ti_keyIndex_eq btree_Get_absent)
next
  assume "tree_inv ti \<and> ki \<in> set ti"
  then have "btree_Get ti (probe (key ki)) = Some ki"
    by (simp add: btree_Get_present)
  then show "GetValueSize ti (key ki) = (valueSize ki, True)"
    by (simp add: GetValueSize_def ti_keyIndex_eq)
qed

theorem GetValueSize_result_witness:
  "absent [120] tree_abc \<and> GetValueSize tree_abc [120] = (- 1, False) \<and>
   tree_inv tree_abc \<and> live_key [98] [rv 3 0] 20 \<in> set tree_abc \<and>
   GetValueSize tree_abc [98] = (20, True)"
proof -
  have h1: "absent [120] tree_abc"
    by (simp add: absent_def tree_abc_def live_key_def)
  have h2: "tree_inv tree_abc \<and> live_key [98] [rv 3 0] 20 \<in> set tree_abc"
    by (simp add: tree_inv_def tree_abc_def live_key_def Less_def)
  have k: "key (live_key [98] [rv 3 0] 20) = [98]" "valueSize (live_key [98] [rv 3 0] 20) = 20"
    by (simp_all add: live_key_def)
  show ?thesis
    using h1 h2 k
      GetValueSize_result [of "[120]" tree_abc "live_key [98] [rv 3 0] 20"]
      GetValueSize_result [of "[98]" tree_abc "live_key [98] [rv 3 0] 20"]
    by simp
qed

subsection \<open>Range scans\<close>

lemma dropWhile_sorted_filter:
  "sorted_wrt Less t \<Longrightarrow> dropWhile (\<lambda>x. Less x p) t = filter (\<lambda>x. \<not> Less x p) t"
proof (induction t)
  case Nil
  then show ?case by simp
next
  case (Cons x xs)
  show ?case
  proof (cases "Less x p")
    case True
    with Cons show ?thesis by simp
  next
    case False
    have "\<forall>y\<in>set xs. \<not> Less y p"
      using Cons.prems False by (auto simp: Less_def)
    then have "filter (\<lambda>x. \<not> Less x p) xs = xs"
      by (simp add: filter_id_conv)
    with False show ?thesis by simp
  qed
qed

lemma ascend_cong:
  "(\<And>x s. x \<in> set t \<Longrightarrow> f x s = g x s) \<Longrightarrow> ascend t f s = ascend t g s"
  by (induction t arbitrary: s) (auto split: prod.splits bool.splits)

lemma ascend_continue:
  "(\<And>x s. x \<in> set t \<Longrightarrow> fst (f x s)) \<Longrightarrow> ascend t f s = fold (\<lambda>x s. snd (f x s)) t s"
proof (induction t arbitrary: s)
  case Nil
  then show ?case by simp
next
  case (Cons x xs)
  have "fst (f x s)" using Cons.prems by simp
  then obtain s' where fx: "f x s = (True, s')" by (cases "f x s") auto
  have "ascend xs f s' = fold (\<lambda>x s. snd (f x s)) xs s'"
    using Cons.IH Cons.prems by simp
  with fx show ?case by simp
qed

lemma ascend_bounded:
  assumes "sorted_wrt Less t" and "\<And>x s. fst (f x s)"
  shows "ascend t
           (\<lambda>item s. if length e > 0 \<and> \<not> Less item (probe e) then (False, s)
                      else (case f item s of (False, s') \<Rightarrow> (False, s') | (True, s') \<Rightarrow> (True, s')))
           s
         = fold (\<lambda>x s. snd (f x s)) (filter (\<lambda>x. e = [] \<or> key x < e) t) s"
  using assms(1)
proof (induction t arbitrary: s)
  case Nil
  then show ?case by simp
next
  case (Cons x xs)
  show ?case
  proof (cases "e \<noteq> [] \<and> \<not> key x < e")
    case True
    then have "\<forall>y\<in>set xs. \<not> (e = [] \<or> key y < e)"
      using Cons.prems by (auto simp: Less_def)
    then have "filter (\<lambda>x. e = [] \<or> key x < e) xs = []"
      by (simp add: filter_empty_conv)
    with True show ?thesis by (simp add: Less_def)
  next
    case False
    obtain s' where fx: "f x s = (True, s')"
      using assms(2) [of x s] by (cases "f x s") auto
    have "sorted_wrt Less xs" using Cons.prems by simp
    note IH = Cons.IH [OF this, of s']
    from False fx IH show ?thesis by (auto simp: Less_def)
  qed
qed

lemma visit_fold:
  assumes "tree_inv ti" and "\<And>x s. fst (f x s)"
  shows "visit ti k (Some e) f s = fold (\<lambda>x s. snd (f x s)) (filter (visited k e) ti) s"
proof -
  let ?t = "filter (\<lambda>x. \<not> Less x (probe k)) ti"
  have drop: "dropWhile (\<lambda>x. Less x (probe k)) ti = ?t"
    using assms(1) by (simp add: tree_inv_def dropWhile_sorted_filter)
  have sorted: "sorted_wrt Less ?t"
    using assms(1) by (simp add: tree_inv_def sorted_wrt_filter)
  have "filter (\<lambda>x. e = [] \<or> key x < e) ?t = filter (visited k e) ti"
    by (simp add: visited_def Less_def not_less cong: filter_cong)
  then show ?thesis
    using ascend_bounded [OF sorted assms(2), where e = e and s = s]
    by (simp add: visit_def btree_AscendGreaterOrEqual_def drop slice_def)
qed

lemma Revisions_fold:
  assumes "fold (\<lambda>ki s. snd ((\<lambda>ki (revs, total).
               case kget ki atRev of
                 Inr (r, _, _) \<Rightarrow>
                   (True,
                    (if limit \<le> 0 \<or> int (length revs) < limit then revs @ [r] else revs,
                     total + 1))
               | Inl err \<Rightarrow> (True, (revs, total))) ki s)) xs (rs0, n0) = (rs, n)"
    and "int (length rs0) = (if 0 < limit then min limit n0 else n0)"
  shows "n = n0 + int (length (filter (found kget atRev) xs)) \<and>
         int (length rs) = (if 0 < limit then min limit n else n)"
  using assms
proof (induction xs arbitrary: rs0 n0)
  case Nil
  then show ?case by simp
next
  case (Cons x xs)
  show ?case
  proof (cases "kget x atRev")
    case (Inl err)
    with Cons.prems Cons.IH [of rs0 n0] show ?thesis
      by (simp add: found_def)
  next
    case (Inr res)
    obtain r cr v where res: "res = (r, cr, v)" by (cases res) auto
    let ?rs1 = "if limit \<le> 0 \<or> int (length rs0) < limit then rs0 @ [r] else rs0"
    have inv: "int (length ?rs1) = (if 0 < limit then min limit (n0 + 1) else n0 + 1)"
      using Cons.prems(2) by (auto simp: min_def split: if_splits)
    have run: "fold (\<lambda>ki s. snd ((\<lambda>ki (revs, total).
               case kget ki atRev of
                 Inr (r, _, _) \<Rightarrow>
                   (True,
                    (if limit \<le> 0 \<or> int (length revs) < limit then revs @ [r] else revs,
                     total + 1))
               | Inl err \<Rightarrow> (True, (revs, total))) ki s)) xs (?rs1, n0 + 1) = (rs, n)"
      using Cons.prems(1) Inr res by simp
    from Cons.IH [OF run inv] Inr show ?thesis
      by (simp add: found_def)
  qed
qed

text \<open>
  C3 (as amended). For a non-nil \<open>end\<close>, \<open>Revisions(key, end, atRev, limit)\<close> returns
  \<open>(revs, total)\<close> where \<open>total\<close> counts the keys the call scans whose \<open>get(atRev)\<close>
  succeeds: the keys of \<open>[key, end)\<close> when \<open>end\<close> has bytes, every key from \<open>key\<close> on
  when \<open>end\<close> is the zero-length slice. The length of \<open>revs\<close> is \<open>min(limit, total)\<close>
  when \<open>limit > 0\<close> and \<open>total\<close> otherwise.
\<close>

theorem Revisions_total_and_limit:
  assumes "tree_inv ti" and "Revisions kget ti k (Some e) atRev limit = (rs, n)"
  shows "n = int (length (filter (found kget atRev) (filter (visited k e) ti))) \<and>
         int (length rs) = (if 0 < limit then min limit n else n)"
proof -
  have "fold (\<lambda>ki s. snd ((\<lambda>ki (revs, total).
               case kget ki atRev of
                 Inr (r, _, _) \<Rightarrow>
                   (True,
                    (if limit \<le> 0 \<or> int (length revs) < limit then revs @ [r] else revs,
                     total + 1))
               | Inl err \<Rightarrow> (True, (revs, total))) ki s)) (filter (visited k e) ti) ([], 0) = (rs, n)"
    using assms(2) unfolding Revisions_def
    by (simp add: visit_fold [OF assms(1)] split: sum.splits prod.splits)
  from Revisions_fold [where kget = kget and atRev = atRev and limit = limit, OF this]
  show ?thesis by simp
qed

theorem Revisions_total_and_limit_witness:
  "tree_inv tree_abc \<and> Revisions ki_get tree_abc [97] (Some [100]) 4 2 = ([rv 2 0, rv 3 0], 3) \<and>
   (3::int) = int (length (filter (found ki_get 4) (filter (visited [97] [100]) tree_abc))) \<and>
   int (length [rv 2 0, rv 3 0]) = (if (0::int) < 2 then min 2 3 else 3)"
proof -
  have inv: "tree_inv tree_abc"
    by (simp add: tree_inv_def tree_abc_def live_key_def Less_def)
  have run: "Revisions ki_get tree_abc [97] (Some [100]) 4 2 = ([rv 2 0, rv 3 0], 3)"
    by code_simp
  show ?thesis
    using inv run Revisions_total_and_limit [OF inv run] by simp
qed

text \<open>
  C3 as first stated counts the keys of \<open>[key, end)\<close> for every non-nil \<open>end\<close>. With the
  zero-length \<open>end\<close> that interval holds no key, and the call counts "a", "b" and "c".
\<close>

theorem Revisions_interval_counterexample:
  "snd (Revisions ki_get tree_abc [97] (Some []) 4 0)
     \<noteq> int (length (filter (found ki_get 4) (filter (between [97] []) tree_abc)))"
  by code_simp


lemma fold_append_concat: "fold (\<lambda>x s. s @ g x) xs acc = acc @ concat (map g xs)"
  by (induction xs arbitrary: acc) simp_all

lemma RangeSince_scan:
  assumes "tree_inv ti"
  shows "RangeSince ksince ti k (Some e) r
           = sort_key rev_key (since_all ksince r (filter (visited k e) ti))"
proof -
  have "btree_AscendGreaterOrEqual ti (probe k)
          (\<lambda>item revs.
             if length (key (probe e)) > 0 \<and> \<not> Less item (probe e) then (False, revs)
             else (True, revs @ ksince item r))
          []
        = visit ti k (Some e) (\<lambda>item revs. (True, revs @ ksince item r)) []"
    by (simp add: visit_def slice_def cong: if_cong)
  also have "\<dots> = fold (\<lambda>x s. s @ ksince x r) (filter (visited k e) ti) []"
    by (simp add: visit_fold [OF assms])
  also have "\<dots> = since_all ksince r (filter (visited k e) ti)"
    by (simp add: fold_append_concat since_all_def)
  finally show ?thesis
    by (simp add: RangeSince_def slice_def)
qed

text \<open>
  C4 (as amended). \<open>RangeSince(key, end, rev)\<close> with \<open>end == nil\<close> returns the
  \<open>since(rev)\<close> output of the single key, or nothing if the key is absent. With a non-nil
  \<open>end\<close> it returns the \<open>since(rev)\<close> outputs of the keys it scans (those of
  \<open>[key, end)\<close> when \<open>end\<close> has bytes, every key from \<open>key\<close> on when it has none),
  concatenated and sorted ascending by revision.
\<close>

theorem RangeSince_result:
  "(absent k ti \<longrightarrow> RangeSince ksince ti k None r = []) \<and>
   (tree_inv ti \<and> ki \<in> set ti \<longrightarrow> RangeSince ksince ti (key ki) None r = ksince ki r) \<and>
   (tree_inv ti \<longrightarrow>
      RangeSince ksince ti k (Some e) r
        = sort_key rev_key (since_all ksince r (filter (visited k e) ti)) \<and>
      sorted (map rev_key (RangeSince ksince ti k (Some e) r)) \<and>
      mset (RangeSince ksince ti k (Some e) r)
        = mset (since_all ksince r (filter (visited k e) ti)))"
proof (intro conjI impI)
  assume "absent k ti"
  then show "RangeSince ksince ti k None r = []"
    by (simp add: RangeSince_def btree_Get_absent)
next
  assume "tree_inv ti \<and> ki \<in> set ti"
  then have "btree_Get ti (probe (key ki)) = Some ki"
    by (simp add: btree_Get_present)
  then show "RangeSince ksince ti (key ki) None r = ksince ki r"
    by (simp add: RangeSince_def)
next
  assume "tree_inv ti"
  then show "RangeSince ksince ti k (Some e) r
        = sort_key rev_key (since_all ksince r (filter (visited k e) ti))"
    by (rule RangeSince_scan)
next
  assume "tree_inv ti"
  then show "sorted (map rev_key (RangeSince ksince ti k (Some e) r))"
    by (simp add: RangeSince_scan)
next
  assume "tree_inv ti"
  then show "mset (RangeSince ksince ti k (Some e) r)
        = mset (since_all ksince r (filter (visited k e) ti))"
    by (simp add: RangeSince_scan)
qed

theorem RangeSince_result_witness:
  "absent [120] tree_s4 \<and> RangeSince ki_since tree_s4 [120] None 3 = [] \<and>
   tree_inv tree_s4 \<and> live_key [97] [rv 2 0, rv 4 0] 10 \<in> set tree_s4 \<and>
   RangeSince ki_since tree_s4 [97] None 3 = [rv 4 0] \<and>
   RangeSince ki_since tree_s4 [97] (Some [100]) 3 = [rv 3 0, rv 4 0, rv 5 0] \<and>
   since_all ki_since 3 (filter (visited [97] [100]) tree_s4) = [rv 4 0, rv 3 0, rv 5 0]"
proof -
  have h1: "absent [120] tree_s4"
    by (simp add: absent_def tree_s4_def live_key_def)
  have h2: "tree_inv tree_s4 \<and> live_key [97] [rv 2 0, rv 4 0] 10 \<in> set tree_s4"
    by (simp add: tree_inv_def tree_s4_def live_key_def Less_def)
  have k: "key (live_key [97] [rv 2 0, rv 4 0] 10) = [97]"
    by (simp add: live_key_def)
  have v1: "ki_since (live_key [97] [rv 2 0, rv 4 0] 10) 3 = [rv 4 0]"
    by code_simp
  have v2: "since_all ki_since 3 (filter (visited [97] [100]) tree_s4) = [rv 4 0, rv 3 0, rv 5 0]"
    by code_simp
  have v3: "sort_key rev_key [rv 4 0, rv 3 0, rv 5 0] = [rv 3 0, rv 4 0, rv 5 0]"
    by code_simp
  show ?thesis
    using h1 h2 k v1 v2 v3
      RangeSince_result [of "[120]" tree_s4 ki_since 3 "live_key [97] [rv 2 0, rv 4 0] 10" "[100]"]
      RangeSince_result [of "[97]" tree_s4 ki_since 3 "live_key [97] [rv 2 0, rv 4 0] 10" "[100]"]
    by simp
qed

text \<open>
  C4 as first stated takes the keys of \<open>[key, end)\<close> for every non-nil \<open>end\<close>. With the
  zero-length \<open>end\<close> that interval holds no key, and the call returns three revisions.
\<close>

theorem RangeSince_interval_counterexample:
  "RangeSince ki_since tree_s4 [97] (Some []) 3
     \<noteq> sort_key rev_key (since_all ki_since 3 (filter (between [97] []) tree_s4))"
  by code_simp

lemma visit_empty_end:
  assumes "\<forall>ki\<in>set ti. key ki < e"
  shows "visit ti k (Some []) f s = visit ti k (Some e) f s"
proof -
  have "\<And>x. x \<in> set (dropWhile (\<lambda>x. Less x (probe k)) ti) \<Longrightarrow> Less x (probe e)"
    using assms by (auto simp: Less_def dest: set_dropWhileD)
  then show ?thesis
    unfolding visit_def btree_AscendGreaterOrEqual_def
    by (auto simp: slice_def intro!: ascend_cong)
qed

lemma RangeSince_empty_end:
  assumes "\<forall>ki\<in>set ti. key ki < e"
  shows "RangeSince ksince ti k (Some []) r = RangeSince ksince ti k (Some e) r"
proof -
  have "\<And>x. x \<in> set (dropWhile (\<lambda>x. Less x (probe k)) ti) \<Longrightarrow> Less x (probe e)"
    using assms by (auto simp: Less_def dest: set_dropWhileD)
  then show ?thesis
    unfolding RangeSince_def btree_AscendGreaterOrEqual_def
    by (auto simp: slice_def intro!: ascend_cong arg_cong [where f = "sort_key rev_key"])
qed

text \<open>
  C5 (as amended). Called with the zero-length non-nil \<open>end\<close>, each of \<open>Range\<close>,
  \<open>Revisions\<close>, \<open>CountRevisions\<close> and \<open>RangeSince\<close> scans without an upper bound: it
  returns what the same call returns with any \<open>end\<close> above every key of the tree.
\<close>

theorem empty_end_is_unbounded:
  assumes "all_below e ti"
  shows "Range_ti kget ti k (Some []) atRev = Range_ti kget ti k (Some e) atRev \<and>
         Revisions kget ti k (Some []) atRev limit = Revisions kget ti k (Some e) atRev limit \<and>
         CountRevisions kget ti k (Some []) atRev = CountRevisions kget ti k (Some e) atRev \<and>
         RangeSince ksince ti k (Some []) r = RangeSince ksince ti k (Some e) r"
  using assms
  by (simp add: all_below_def Range_ti_def Revisions_def CountRevisions_def visit_empty_end
      RangeSince_empty_end)

theorem empty_end_is_unbounded_witness:
  "all_below [100] tree_abc \<and>
   Range_ti ki_get tree_abc [98] (Some []) 4 = ([[98], [99]], [rv 3 0, rv 4 0]) \<and>
   Range_ti ki_get tree_abc [98] (Some [100]) 4 = ([[98], [99]], [rv 3 0, rv 4 0]) \<and>
   Revisions ki_get tree_abc [98] (Some []) 4 1 = ([rv 3 0], 2) \<and>
   Revisions ki_get tree_abc [98] (Some [100]) 4 1 = ([rv 3 0], 2) \<and>
   CountRevisions ki_get tree_abc [98] (Some []) 4 = 2 \<and>
   CountRevisions ki_get tree_abc [98] (Some [100]) 4 = 2 \<and>
   RangeSince ki_since tree_abc [98] (Some []) 2 = [rv 3 0, rv 4 0] \<and>
   RangeSince ki_since tree_abc [98] (Some [100]) 2 = [rv 3 0, rv 4 0]"
proof -
  have h: "all_below [100] tree_abc"
    by (simp add: all_below_def tree_abc_def live_key_def)
  have v1: "Range_ti ki_get tree_abc [98] (Some [100]) 4 = ([[98], [99]], [rv 3 0, rv 4 0])"
    by code_simp
  have v2: "Revisions ki_get tree_abc [98] (Some [100]) 4 1 = ([rv 3 0], 2)"
    by code_simp
  have v3: "CountRevisions ki_get tree_abc [98] (Some [100]) 4 = 2"
    by code_simp
  have v4: "RangeSince ki_since tree_abc [98] (Some [100]) 2 = [rv 3 0, rv 4 0]"
    by code_simp
  show ?thesis
    using h v1 v2 v3 v4
      empty_end_is_unbounded [OF h, of ki_get "[98]" 4 1 ki_since 2]
    by simp
qed

text \<open>
  C5 as first stated gives the zero-length \<open>end\<close> the single-key result of \<open>end == nil\<close>.
  On the tree of "a", "b", "c", \<open>Range\<close> from "a" returns three keys with the zero-length
  \<open>end\<close> and one with \<open>nil\<close>.
\<close>

theorem empty_end_counterexample:
  "Range_ti ki_get tree_abc [97] (Some []) 4 \<noteq> Range_ti ki_get tree_abc [97] None 4"
  by code_simp

subsection \<open>Compaction\<close>













subsection \<open>Keep and Compact\<close>










subsection \<open>Equality of two indexes\<close>

lemma equal_walk_True:
  "ascend t (equal_step kequal b) (Inr True) = Inr True \<Longrightarrow> \<forall>ki\<in>set t. \<not> absent (key ki) b"
proof (induction t)
  case Nil
  then show ?case by simp
next
  case (Cons x xs)
  show ?case
  proof (cases "btree_Get b x")
    case None
    with Cons.prems show ?thesis by (simp add: equal_step_def)
  next
    case (Some bki)
    then have here: "\<not> absent (key x) b"
      using btree_Get_None_iff [of b x] by simp
    show ?thesis
    proof (cases "kequal x bki")
      case True
      with Some Cons show ?thesis using here by (simp add: equal_step_def)
    next
      case False
      with Some Cons.prems show ?thesis by (simp add: equal_step_def)
    qed
  qed
qed

lemma equal_walk_Panic:
  "ascend t (equal_step kequal b) (Inr True) = Inl Panic \<Longrightarrow> \<exists>ki\<in>set t. absent (key ki) b"
proof (induction t)
  case Nil
  then show ?case by simp
next
  case (Cons x xs)
  show ?case
  proof (cases "btree_Get b x")
    case None
    then have "absent (key x) b" by (simp add: btree_Get_None_iff)
    then show ?thesis by auto
  next
    case (Some bki)
    show ?thesis
    proof (cases "kequal x bki")
      case True
      with Some Cons show ?thesis by (simp add: equal_step_def)
    next
      case False
      with Some Cons.prems show ?thesis by (simp add: equal_step_def)
    qed
  qed
qed

lemma equal_walk_stops:
  assumes "equal_prefix kequal pre b" and "btree_Get b x = Some bx" and "\<not> kequal x bx"
  shows "ascend (pre @ x # rest) (equal_step kequal b) (Inr True) = Inr False"
  using assms(1)
proof (induction pre)
  case Nil
  show ?case using assms(2,3) by (simp add: equal_step_def)
next
  case (Cons p ps)
  then obtain bp where "btree_Get b p = Some bp" "kequal p bp"
    by (auto simp: equal_prefix_def split: option.splits)
  moreover have "equal_prefix kequal ps b"
    using Cons.prems by (simp add: equal_prefix_def)
  ultimately show ?case
    using Cons.IH by (simp add: equal_step_def)
qed

lemma Equal_first_missing: "absent (key x) b \<Longrightarrow> length (x # xs) = length b
    \<Longrightarrow> Equal kequal (x # xs) b = Inl Panic"
  using btree_Get_None_iff [of b x]
  by (simp add: Equal_def btree_Len_def btree_Ascend_def equal_step_def)

text \<open>
  C8 (as amended). There are two trees with the same number of keys and different key
  sets on which \<open>Equal\<close> panics, whatever \<open>keyIndex.equal\<close> does, instead of
  returning false. \<open>Equal\<close> panics only when the lengths are equal and some key of the
  receiver is absent from the other tree, and it returns true only when every key of the
  receiver is present in the other tree. It returns false when the lengths differ, and
  when the walk meets an unequal pair after keys that are all present and equal in the
  other tree, whatever keys follow.
\<close>

theorem Equal_panics_on_missing_key:
  "(\<exists>ti b. tree_inv ti \<and> tree_inv b \<and> length ti = length b \<and> key ` set ti \<noteq> key ` set b \<and>
      (\<forall>kequal. Equal kequal ti b = Inl Panic)) \<and>
   (Equal kequal ti b = Inl Panic \<longrightarrow>
      length ti = length b \<and> (\<exists>ki\<in>set ti. absent (key ki) b)) \<and>
   (Equal kequal ti b = Inr True \<longrightarrow> all_present ti b) \<and>
   (length ti \<noteq> length b \<longrightarrow> Equal kequal ti b = Inr False) \<and>
   (length (pre @ x # rest) = length b \<and> equal_prefix kequal pre b \<and>
      btree_Get b x = Some bx \<and> \<not> kequal x bx \<longrightarrow>
      Equal kequal (pre @ x # rest) b = Inr False)"
proof (intro conjI impI)
  have "tree_inv [live_key [97] [rv 2 0] 10]" "tree_inv tree_b"
    by (simp_all add: tree_inv_def tree_b_def)
  moreover have "length [live_key [97] [rv 2 0] 10] = length tree_b"
    by (simp add: tree_b_def)
  moreover have "key ` set [live_key [97] [rv 2 0] 10] \<noteq> key ` set tree_b"
    by (simp add: tree_b_def live_key_def)
  moreover have "\<forall>kequal. Equal kequal [live_key [97] [rv 2 0] 10] tree_b = Inl Panic"
    by (simp add: Equal_first_missing absent_def tree_b_def live_key_def)
  ultimately show "\<exists>ti b. tree_inv ti \<and> tree_inv b \<and> length ti = length b \<and>
      key ` set ti \<noteq> key ` set b \<and> (\<forall>kequal. Equal kequal ti b = Inl Panic)"
    by blast
next
  assume "Equal kequal ti b = Inl Panic"
  then show "length ti = length b"
    by (simp add: Equal_def btree_Len_def split: if_splits)
next
  assume "Equal kequal ti b = Inl Panic"
  then show "\<exists>ki\<in>set ti. absent (key ki) b"
    using equal_walk_Panic [of ti kequal b]
    by (simp add: Equal_def btree_Ascend_def split: if_splits)
next
  assume "Equal kequal ti b = Inr True"
  then show "all_present ti b"
    using equal_walk_True [of ti kequal b]
    by (simp add: all_present_def Equal_def btree_Ascend_def split: if_splits)
next
  assume "length ti \<noteq> length b"
  then show "Equal kequal ti b = Inr False"
    by (simp add: Equal_def btree_Len_def)
next
  assume h: "length (pre @ x # rest) = length b \<and> equal_prefix kequal pre b \<and>
      btree_Get b x = Some bx \<and> \<not> kequal x bx"
  then have "ascend (pre @ x # rest) (equal_step kequal b) (Inr True) = Inr False"
    by (simp add: equal_walk_stops)
  with h show "Equal kequal (pre @ x # rest) b = Inr False"
    by (simp add: Equal_def btree_Len_def btree_Ascend_def)
qed

theorem Equal_panics_on_missing_key_witness:
  "Equal ki_equal tree_abc tree_abd = Inl Panic \<and>
   length tree_abc = length tree_abd \<and> (\<exists>ki\<in>set tree_abc. absent (key ki) tree_abd) \<and>
   Equal ki_equal tree_abc tree_abc = Inr True \<and>
   all_present tree_abc tree_abc \<and>
   length tree_abc \<noteq> length tree_b \<and> Equal ki_equal tree_abc tree_b = Inr False \<and>
   length ([live_key [97] [rv 2 0] 10] @ live_key [98] [rv 9 0] 20 # [live_key [99] [rv 4 0] 30])
     = length tree_abd \<and>
   equal_prefix ki_equal [live_key [97] [rv 2 0] 10] tree_abd \<and>
   btree_Get tree_abd (live_key [98] [rv 9 0] 20) = Some (live_key [98] [rv 3 0] 20) \<and>
   Equal ki_equal
     ([live_key [97] [rv 2 0] 10] @ live_key [98] [rv 9 0] 20 # [live_key [99] [rv 4 0] 30])
     tree_abd = Inr False"
proof -
  have p: "Equal ki_equal tree_abc tree_abd = Inl Panic"
    by code_simp
  have t: "Equal ki_equal tree_abc tree_abc = Inr True"
    by code_simp
  have l: "length tree_abc \<noteq> length tree_b"
    by (simp add: tree_abc_def tree_b_def)
  have len': "length ([live_key [97] [rv 2 0] 10] @ live_key [98] [rv 9 0] 20 # [live_key [99] [rv 4 0] 30])
     = length tree_abd"
    by (simp add: tree_abd_def)
  have a: "btree_Get tree_abd (live_key [97] [rv 2 0] 10) = Some (live_key [97] [rv 2 0] 10)"
    by code_simp
  have a_eq: "ki_equal (live_key [97] [rv 2 0] 10) (live_key [97] [rv 2 0] 10)"
    by (simp add: ki_equal_def)
  have pre: "equal_prefix ki_equal [live_key [97] [rv 2 0] 10] tree_abd"
    using a a_eq by (simp add: equal_prefix_def)
  have b: "btree_Get tree_abd (live_key [98] [rv 9 0] 20) = Some (live_key [98] [rv 3 0] 20)"
    by code_simp
  have b_ne: "\<not> ki_equal (live_key [98] [rv 9 0] 20) (live_key [98] [rv 3 0] 20)"
    by code_simp
  note panics = Equal_panics_on_missing_key
    [of ki_equal tree_abc tree_abd, THEN conjunct2, THEN conjunct1, THEN mp, OF p]
  note all_there = Equal_panics_on_missing_key
    [of ki_equal tree_abc tree_abc, THEN conjunct2, THEN conjunct2, THEN conjunct1, THEN mp, OF t]
  note differ = Equal_panics_on_missing_key
    [of ki_equal tree_abc tree_b, THEN conjunct2, THEN conjunct2, THEN conjunct2,
      THEN conjunct1, THEN mp, OF l]
  note stops = Equal_panics_on_missing_key
    [where kequal = ki_equal and b = tree_abd and pre = "[live_key [97] [rv 2 0] 10]"
       and x = "live_key [98] [rv 9 0] 20" and rest = "[live_key [99] [rv 4 0] 30]"
       and bx = "live_key [98] [rv 3 0] 20",
      THEN conjunct2, THEN conjunct2, THEN conjunct2, THEN conjunct2, THEN mp,
      OF conjI [OF len' conjI [OF pre conjI [OF b b_ne]]]]
  from p t l len' pre b panics all_there differ stops show ?thesis
    by blast
qed

text \<open>
  C8 as first stated lets \<open>Equal\<close> return a boolean only when every key of the receiver
  is in the other tree. Here the trees have three keys each, "c" is missing from the other
  tree, and \<open>Equal\<close> returns false: the walk stops at "a", whose histories differ.
\<close>

theorem Equal_returns_false_counterexample:
  "Equal ki_equal tree_abc tree_abd_later = Inr False \<and> length tree_abc = length tree_abd_later \<and>
   live_key [99] [rv 4 0] 30 \<in> set tree_abc \<and>
   absent (key (live_key [99] [rv 4 0] 30)) tree_abd_later"
  by code_simp

end
